theory Spec2Isabelle
  imports Complex_Main "HOL-Library.Extended_Nat"
begin

section \<open>JavaScript strings\<close>

text \<open>
  A JavaScript string is a sequence of UTF-16 code units. A code unit is modelled as a
  natural number, so that the arrow of the sample prefix (U+2192) and the non-ASCII
  white space of \<open>\s\<close> and \<open>trim()\<close> are ordinary characters. \<open>js\<close> turns an
  ASCII literal into such a string.
\<close>

type_synonym jschar = nat
type_synonym jsstring = "jschar list"

definition js :: "string \<Rightarrow> jsstring" where
  "js s = map of_char s"

text \<open>The class \<open>\s\<close> of a regular expression; \<open>trim()\<close> strips the same set.\<close>

definition isWhitespace :: "jschar \<Rightarrow> bool" where
  "isWhitespace c \<longleftrightarrow>
     c = 9 \<or> c = 10 \<or> c = 11 \<or> c = 12 \<or> c = 13 \<or> c = 32 \<or> c = 160 \<or> c = 5760
     \<or> (8192 \<le> c \<and> c \<le> 8202) \<or> c = 8232 \<or> c = 8233 \<or> c = 8239 \<or> c = 8287
     \<or> c = 12288 \<or> c = 65279"

definition trimStart :: "jsstring \<Rightarrow> jsstring" where
  "trimStart s = dropWhile isWhitespace s"

definition trimEnd :: "jsstring \<Rightarrow> jsstring" where
  "trimEnd s = rev (dropWhile isWhitespace (rev s))"

definition trim :: "jsstring \<Rightarrow> jsstring" where
  "trim s = trimEnd (trimStart s)"

text \<open>\<open>indexOf\<close> of a character and \<open>substring\<close> with both ends inside the string.\<close>

fun indexOf :: "jschar \<Rightarrow> jsstring \<Rightarrow> nat option" where
  "indexOf c [] = None"
| "indexOf c (d # s) =
     (if d = c then Some 0 else (case indexOf c s of None \<Rightarrow> None | Some i \<Rightarrow> Some (i + 1)))"

definition substring :: "jsstring \<Rightarrow> nat \<Rightarrow> nat \<Rightarrow> jsstring" where
  "substring s start end' = take (end' - start) (drop start s)"

definition substringFrom :: "jsstring \<Rightarrow> nat \<Rightarrow> jsstring" where
  "substringFrom s start = drop start s"

section \<open>FileIndexer (file-indexer.ts)\<close>

text \<open>
  A \<open>File\<close> is its bytes. \<open>slice\<close> clamps both ends to the size, as \<open>Blob.slice\<close>
  does for the non-negative arguments the indexer passes. Reads are taken to succeed; the
  progress callback has no effect on the index and is left out.
\<close>

type_synonym byte = nat
type_synonym File = "byte list"

definition slice :: "File \<Rightarrow> nat \<Rightarrow> nat \<Rightarrow> byte list" where
  "slice f start end' = take (end' - start) (drop start f)"

record FileIndexer =
  file' :: File
  treeOffsets :: "nat list"
  fileSize :: nat
  indexed :: bool
  skipFirstLine :: bool

definition newFileIndexer :: "File \<Rightarrow> bool \<Rightarrow> FileIndexer" where
  "newFileIndexer f skip =
     \<lparr>file' = f, treeOffsets = [], fileSize = length f, indexed = False, skipFirstLine = skip\<rparr>"

definition CHUNK_SIZE :: nat where
  "CHUNK_SIZE = 1024 * 1024"

text \<open>The inner \<open>for\<close> loop over the bytes of one chunk; \<open>i\<close> is the loop index.\<close>

fun scanChunk :: "nat \<Rightarrow> nat \<Rightarrow> byte list \<Rightarrow> nat \<Rightarrow> nat list \<Rightarrow> nat list" where
  "scanChunk fsz offset [] i offs = offs"
| "scanChunk fsz offset (b # bs) i offs =
     scanChunk fsz offset bs (i + 1)
       (if b = 10
        then (let nextLineOffset = offset + i + 1
              in if nextLineOffset < fsz then offs @ [nextLineOffset] else offs)
        else offs)"

text \<open>The \<open>while (offset < this.fileSize)\<close> loop over the chunks.\<close>

function indexLoop :: "FileIndexer \<Rightarrow> nat \<Rightarrow> nat list \<Rightarrow> nat list" where
  "indexLoop fi offset offs =
     (if offset < fileSize fi
      then (let end' = min (offset + CHUNK_SIZE) (fileSize fi);
                bytes = slice (file' fi) offset end'
            in indexLoop fi end' (scanChunk (fileSize fi) offset bytes 0 offs))
      else offs)"
  by pat_completeness auto
termination
  by (relation "measure (\<lambda>(fi, offset, offs). fileSize fi - offset)")
     (auto simp: CHUNK_SIZE_def)

declare indexLoop.simps [simp del]

definition index :: "FileIndexer \<Rightarrow> FileIndexer" where
  "index fi =
     (let offs0 = indexLoop fi 0 [0];
          offs1 = (if length offs0 > 0 \<and> last offs0 \<ge> fileSize fi then butlast offs0 else offs0);
          offs2 = (if skipFirstLine fi \<and> length offs1 > 0 then tl offs1 else offs1)
      in fi\<lparr>treeOffsets := offs2, indexed := True\<rparr>)"

definition getTreeCount :: "FileIndexer \<Rightarrow> nat" where
  "getTreeCount fi = length (treeOffsets fi)"

text \<open>
  \<open>getTree\<close> returns the text, and the model also returns the byte ranges it read and the
  indexer it leaves behind. \<open>decode\<close> stands for the platform's \<open>Blob.text()\<close>, the
  UTF-8 decoding of the bytes read.
\<close>

record GetTreeResult =
  text' :: jsstring
  reads :: "(nat \<times> nat) list"
  indexer :: FileIndexer

definition getTree :: "(byte list \<Rightarrow> jsstring) \<Rightarrow> FileIndexer \<Rightarrow> int \<Rightarrow> GetTreeResult" where
  "getTree decode fi idx =
     (if idx < 0 \<or> idx \<ge> int (length (treeOffsets fi))
      then \<lparr>text' = [], reads = [], indexer = fi\<rparr>
      else (let startOffset = treeOffsets fi ! nat idx;
                endOffset = (if idx + 1 < int (length (treeOffsets fi))
                             then treeOffsets fi ! nat (idx + 1)
                             else fileSize fi);
                chunk = slice (file' fi) startOffset endOffset
            in \<lparr>text' = trim (decode chunk), reads = [(startOffset, endOffset)], indexer = fi\<rparr>))"

text \<open>A source of newline-terminated lines: every line followed by the byte 10.\<close>

definition fileOfLines :: "byte list list \<Rightarrow> File" where
  "fileOfLines ls = concat (map (\<lambda>l. l @ [10]) ls)"

section \<open>Trees (tree-types.ts, genetree-types.ts)\<close>

text \<open>
  A \<open>number\<close> is modelled as a real: arithmetic is exact, and the floating-point values
  \<open>NaN\<close> and \<open>Infinity\<close> are outside the model (the parsers never store \<open>NaN\<close>).
\<close>

datatype TreeNode =
  TreeNode (name: jsstring) (branchLength: real) (theta: "real option") (children: "TreeNode list")

definition createTreeNode :: TreeNode where
  "createTreeNode = TreeNode [] 0 None []"

definition isLeaf :: "TreeNode \<Rightarrow> bool" where
  "isLeaf node \<longleftrightarrow> length (children node) = 0"





datatype GeneTreeNode =
  GeneTreeNode (gname: jsstring) (gbranchLength: real) (gchildren: "GeneTreeNode list")
    (species: "jsstring option") (individual: "jsstring option")

type_synonym Imap = "jsstring \<rightharpoonup> jsstring"

text \<open>
  The two annotation fields are whatever \<open>parseFloat\<close> made of the matched text;
  \<open>None\<close> stands for \<open>NaN\<close>.
\<close>

record GeneTree =
  root :: GeneTreeNode
  treeHeight :: "real option"
  treeLength :: "real option"

definition isGeneLeaf :: "GeneTreeNode \<Rightarrow> bool" where
  "isGeneLeaf node \<longleftrightarrow> length (gchildren node) = 0"

fun getGeneLeaves :: "GeneTreeNode \<Rightarrow> GeneTreeNode list" where
  "getGeneLeaves (GeneTreeNode n bl cs sp ind) =
     (if length cs = 0 then [GeneTreeNode n bl cs sp ind] else concat (map getGeneLeaves cs))"


section \<open>Numbers in text\<close>

text \<open>
  \<open>parseFloat\<close>: leading white space is skipped, then the longest prefix that is a
  decimal literal (sign, digits, fraction, exponent) is read; \<open>None\<close> stands for
  \<open>NaN\<close>. The value is the exact decimal. The literal \<open>Infinity\<close>, which JavaScript
  reads as an infinite number, has no real value and is read as \<open>None\<close> here.
\<close>

definition isDigit :: "jschar \<Rightarrow> bool" where
  "isDigit c \<longleftrightarrow> 48 \<le> c \<and> c \<le> 57"

fun digitsValue :: "jsstring \<Rightarrow> nat \<Rightarrow> nat" where
  "digitsValue [] acc = acc"
| "digitsValue (c # cs) acc = digitsValue cs (10 * acc + (c - 48))"

definition parseFloat :: "jsstring \<Rightarrow> real option" where
  "parseFloat str =
     (let t = trimStart str;
          neg = (t \<noteq> [] \<and> hd t = of_char CHR ''-'');
          t1 = (if t \<noteq> [] \<and> (hd t = of_char CHR ''+'' \<or> hd t = of_char CHR ''-'') then tl t else t);
          ip = takeWhile isDigit t1;
          t2 = dropWhile isDigit t1;
          hasDot = (t2 \<noteq> [] \<and> hd t2 = of_char CHR ''.'');
          fp = (if hasDot then takeWhile isDigit (tl t2) else []);
          t3 = (if hasDot then dropWhile isDigit (tl t2) else t2)
      in if ip = [] \<and> fp = [] then None
         else (let mant = real (digitsValue ip 0) + real (digitsValue fp 0) / 10 ^ length fp;
                   hasExp = (t3 \<noteq> [] \<and> (hd t3 = of_char CHR ''e'' \<or> hd t3 = of_char CHR ''E''));
                   t4 = (if hasExp then tl t3 else []);
                   eneg = (t4 \<noteq> [] \<and> hd t4 = of_char CHR ''-'');
                   t5 = (if t4 \<noteq> [] \<and> (hd t4 = of_char CHR ''+'' \<or> hd t4 = of_char CHR ''-'')
                         then tl t4 else t4);
                   ed = takeWhile isDigit t5;
                   scaled = (if ed = [] then mant
                             else if eneg then mant / 10 ^ digitsValue ed 0
                             else mant * 10 ^ digitsValue ed 0)
               in Some (if neg then - scaled else scaled)))"

text \<open>\<open>parseFloat(s) || 0\<close>: \<open>NaN\<close> and 0 both give 0.\<close>

definition orZero :: "real option \<Rightarrow> real" where
  "orZero v = (case v of None \<Rightarrow> 0 | Some r \<Rightarrow> r)"

section \<open>Species-tree parser (newick-parser.ts)\<close>

text \<open>
  The three replacements of \<open>cleanNewick\<close>. Each regular expression is anchored and its
  classes are disjoint, so the greedy match is the only one.
\<close>

text \<open>\<open>replace(/^\s*\d+\s*\<rightarrow>\s*/, '')\<close>; the arrow is U+2192.\<close>

definition stripSamplePrefix :: "jsstring \<Rightarrow> jsstring" where
  "stripSamplePrefix s =
     (let s1 = dropWhile isWhitespace s;
          ds = takeWhile isDigit s1;
          s2 = dropWhile isWhitespace (dropWhile isDigit s1)
      in if ds \<noteq> [] \<and> s2 \<noteq> [] \<and> hd s2 = 8594 then dropWhile isWhitespace (tl s2) else s)"

text \<open>\<open>replace(/^\s*\d+\s+(?=\()/, '')\<close>.\<close>

definition stripLeadingNumber :: "jsstring \<Rightarrow> jsstring" where
  "stripLeadingNumber s =
     (let s1 = dropWhile isWhitespace s;
          ds = takeWhile isDigit s1;
          s2 = dropWhile isDigit s1;
          sp = takeWhile isWhitespace s2;
          s3 = dropWhile isWhitespace s2
      in if ds \<noteq> [] \<and> sp \<noteq> [] \<and> s3 \<noteq> [] \<and> hd s3 = of_char CHR ''('' then s3 else s)"

text \<open>
  \<open>replace(/;\s*\d+\s*$/, ';')\<close>: the leftmost semicolon followed, up to the end of
  the text, by white space, digits and white space only.
\<close>

definition countTail :: "jsstring \<Rightarrow> bool" where
  "countTail s \<longleftrightarrow>
     (let s1 = dropWhile isWhitespace s
      in takeWhile isDigit s1 \<noteq> [] \<and> dropWhile isWhitespace (dropWhile isDigit s1) = [])"

fun stripTrailingCount :: "jsstring \<Rightarrow> jsstring" where
  "stripTrailingCount [] = []"
| "stripTrailingCount (c # s) =
     (if c = of_char CHR '';'' \<and> countTail s then [of_char CHR '';'']
      else c # stripTrailingCount s)"

definition cleanNewick :: "jsstring \<Rightarrow> jsstring" where
  "cleanNewick newickStr = trim (stripTrailingCount (stripLeadingNumber (stripSamplePrefix newickStr)))"

text \<open>\<open>replace(/;$/, '')\<close>.\<close>

definition stripFinalSemicolon :: "jsstring \<Rightarrow> jsstring" where
  "stripFinalSemicolon s = (if s \<noteq> [] \<and> last s = of_char CHR '';'' then butlast s else s)"

text \<open>
  The parser reads \<open>newickStr\<close> from \<open>pos\<close>; the model passes the unread rest of the
  text instead of the position. \<open>skipWhitespace\<close> drops the white space at its start.
\<close>

definition skipWhitespace :: "jsstring \<Rightarrow> jsstring" where
  "skipWhitespace s = dropWhile isWhitespace s"

definition nameStop :: "jschar \<Rightarrow> bool" where
  "nameStop c \<longleftrightarrow> c \<in> set (js ''#,:();'')"

definition valueStop :: "jschar \<Rightarrow> bool" where
  "valueStop c \<longleftrightarrow> c \<in> set (js '',:();'')"

text \<open>
  The second half of \<open>parseNode\<close>, after the children: name, theta after \<open>#\<close>, branch
  length after \<open>:\<close>. It returns the node and the unread rest.
\<close>

definition parseLabel :: "TreeNode list \<Rightarrow> jsstring \<Rightarrow> TreeNode \<times> jsstring" where
  "parseLabel cs s0 =
     (let s1 = skipWhitespace s0;
          nm = trim (takeWhile (\<lambda>c. \<not> nameStop c) s1);
          s2 = skipWhitespace (dropWhile (\<lambda>c. \<not> nameStop c) s1);
          hasTheta = (s2 \<noteq> [] \<and> hd s2 = of_char CHR ''#'');
          th = (if hasTheta then parseFloat (trim (takeWhile (\<lambda>c. \<not> valueStop c) (tl s2))) else None);
          s3 = skipWhitespace (if hasTheta then dropWhile (\<lambda>c. \<not> valueStop c) (tl s2) else s2);
          hasLength = (s3 \<noteq> [] \<and> hd s3 = of_char CHR '':'');
          bl = (if hasLength
                then (case parseFloat (trim (takeWhile (\<lambda>c. \<not> valueStop c) (tl s3))) of
                        None \<Rightarrow> 0 | Some v \<Rightarrow> v)
                else 0);
          s4 = (if hasLength then dropWhile (\<lambda>c. \<not> valueStop c) (tl s3) else s3)
      in (TreeNode nm bl th cs, s4))"

text \<open>
  \<open>parseNode\<close> and its \<open>while (true)\<close> loop over the children. The loop has no exit
  when the next character is neither a comma nor a closing parenthesis and the next
  \<open>parseNode\<close> reads nothing, so the functions take fuel: one unit for every nested call
  and every turn of the loop. \<open>None\<close> means the fuel ran out.
\<close>

fun parseNode :: "nat \<Rightarrow> jsstring \<Rightarrow> (TreeNode \<times> jsstring) option"
  and parseChildren :: "nat \<Rightarrow> jsstring \<Rightarrow> TreeNode list \<Rightarrow> (TreeNode list \<times> jsstring) option"
where
  "parseNode 0 s = None"
| "parseNode (Suc k) s =
     (let s1 = skipWhitespace s
      in if s1 \<noteq> [] \<and> hd s1 = of_char CHR ''(''
         then (case parseChildren k (tl s1) [] of
                 None \<Rightarrow> None
               | Some (cs, s2) \<Rightarrow> Some (parseLabel cs s2))
         else Some (parseLabel [] s1))"
| "parseChildren 0 s acc = None"
| "parseChildren (Suc k) s acc =
     (case parseNode k (skipWhitespace s) of
        None \<Rightarrow> None
      | Some (child, s1) \<Rightarrow>
          (let cs = acc @ [child];
               s2 = skipWhitespace s1
           in if s2 = [] then Some (cs, s2)
              else if hd s2 = of_char CHR '','' then parseChildren k (tl s2) cs
              else if hd s2 = of_char CHR '')'' then Some (cs, tl s2)
              else parseChildren k s2 cs))"

text \<open>
  \<open>parseNewick\<close>: the outer \<open>None\<close> is "did not return within the fuel"; inside,
  \<open>None\<close> is \<open>null\<close>. Nothing in \<open>parseNode\<close> throws, so the \<open>catch\<close> is not
  reached.
\<close>

definition parseNewick :: "nat \<Rightarrow> jsstring \<Rightarrow> TreeNode option option" where
  "parseNewick fuel newickStr =
     (let cleaned = cleanNewick newickStr
      in if cleaned = [] \<or> cleaned = js '';'' then Some None
         else (case parseNode fuel (trim (stripFinalSemicolon cleaned)) of
                 None \<Rightarrow> None
               | Some (node, rest) \<Rightarrow> Some (Some node)))"

section \<open>Gene-tree and Imap parser (genetree-parser.ts)\<close>

text \<open>\<open>split('\n')\<close>: the pieces between the newlines, empty ones included.\<close>

fun splitOn :: "jschar \<Rightarrow> jsstring \<Rightarrow> jsstring list" where
  "splitOn sep [] = [[]]"
| "splitOn sep (c # s) =
     (if c = sep then [] # splitOn sep s
      else (c # hd (splitOn sep s)) # tl (splitOn sep s))"

text \<open>
  \<open>split(/\s+/)\<close>: the piece up to the next run of white space, then the pieces of the
  text after that run.
\<close>

function splitWhitespace :: "jsstring \<Rightarrow> jsstring list" where
  "splitWhitespace s =
     (let piece = takeWhile (\<lambda>c. \<not> isWhitespace c) s;
          rest = dropWhile (\<lambda>c. \<not> isWhitespace c) s
      in if rest = [] then [piece]
         else piece # splitWhitespace (dropWhile isWhitespace rest))"
  by pat_completeness auto
termination
proof (relation "measure length")
  fix s piece rest :: jsstring
  assume rest: "rest = dropWhile (\<lambda>c. \<not> isWhitespace c) s" and ne: "rest \<noteq> []"
  have "isWhitespace (hd rest)"
    using hd_dropWhile[of "\<lambda>c. \<not> isWhitespace c" s] ne rest by simp
  then have "length (dropWhile isWhitespace rest) < length rest"
    using ne by (cases rest) (simp_all add: le_imp_less_Suc length_dropWhile_le)
  moreover have "length rest \<le> length s"
    unfolding rest by (rule length_dropWhile_le)
  ultimately show "(dropWhile isWhitespace rest, s) \<in> measure length" by simp
qed simp

declare splitWhitespace.simps [simp del]

fun imapLoop :: "jsstring list \<Rightarrow> Imap \<Rightarrow> Imap" where
  "imapLoop [] m = m"
| "imapLoop (line # lines) m =
     (let trimmed = trim line
      in if trimmed = [] then imapLoop lines m
         else (let parts = splitWhitespace trimmed
               in if length parts \<ge> 2
                  then imapLoop lines (m(parts ! 0 \<mapsto> parts ! 1))
                  else imapLoop lines m))"

definition parseImap :: "jsstring \<Rightarrow> Imap" where
  "parseImap content = imapLoop (splitOn 10 (trim content)) Map.empty"

text \<open>
  \<open>toUpperCase\<close> on the ASCII letters. The test in \<open>parseLeafNode\<close> also demands
  \<open>/^[A-Z]+$/\<close>, and on a text of those letters every case mapping is the identity, so
  the mapping of other characters does not reach the result.
\<close>

definition toUpperCase :: "jsstring \<Rightarrow> jsstring" where
  "toUpperCase s = map (\<lambda>c. if 97 \<le> c \<and> c \<le> 122 then c - 32 else c) s"

text \<open>\<open>/^[A-Z]+$/.test(s)\<close>.\<close>

definition isUpperAlpha :: "jsstring \<Rightarrow> bool" where
  "isUpperAlpha s \<longleftrightarrow> s \<noteq> [] \<and> list_all (\<lambda>c. 65 \<le> c \<and> c \<le> 90) s"

definition parseLeafNode :: "jsstring \<Rightarrow> Imap option \<Rightarrow> GeneTreeNode" where
  "parseLeafNode str im =
     (let colonIdx = indexOf (of_char CHR '':'') str;
          nm = (case colonIdx of
                  Some ci \<Rightarrow> trim (substring str 0 ci)
                | None \<Rightarrow> trim str);
          bl = (case colonIdx of
                  Some ci \<Rightarrow> orZero (parseFloat (substringFrom str (ci + 1)))
                | None \<Rightarrow> 0)
      in (case indexOf (of_char CHR ''^'') nm of
            Some caretIdx \<Rightarrow>
              (let part1 = substring nm 0 caretIdx;
                   part2 = substringFrom nm (caretIdx + 1)
               in if length part2 \<le> 2 \<and> part2 = toUpperCase part2 \<and> isUpperAlpha part2
                  then GeneTreeNode nm bl [] (Some part2) (Some part1)
                  else GeneTreeNode nm bl [] (Some part1) (Some part2))
          | None \<Rightarrow>
              (case im of
                 Some m \<Rightarrow> GeneTreeNode nm bl [] (m nm) (Some nm)
               | None \<Rightarrow> GeneTreeNode nm bl [] None None)))"

text \<open>\<open>str.match(/:([0-9.eE+-]+)/)\<close>: the run after the first colon that has one.\<close>

definition isLengthChar :: "jschar \<Rightarrow> bool" where
  "isLengthChar c \<longleftrightarrow> isDigit c \<or> c \<in> set (js ''.eE+-'')"

fun matchBranchLength :: "jsstring \<Rightarrow> jsstring option" where
  "matchBranchLength [] = None"
| "matchBranchLength (c # s) =
     (if c = of_char CHR '':'' \<and> s \<noteq> [] \<and> isLengthChar (hd s)
      then Some (takeWhile isLengthChar s)
      else matchBranchLength s)"

definition parseBranchLength :: "jsstring \<Rightarrow> real" where
  "parseBranchLength str =
     (case matchBranchLength str of
        Some m \<Rightarrow> orZero (parseFloat m)
      | None \<Rightarrow> 0)"

text \<open>
  The loop of \<open>parseNewickNode\<close> that looks for the parenthesis closing the first one:
  \<open>i\<close> is the index of the first character of the text still to scan.
\<close>

fun findClose :: "jsstring \<Rightarrow> nat \<Rightarrow> int \<Rightarrow> nat option" where
  "findClose [] i depth = None"
| "findClose (c # s) i depth =
     (if c = of_char CHR ''('' then findClose s (i + 1) (depth + 1)
      else if c = of_char CHR '')''
      then (if depth - 1 = 0 then Some i else findClose s (i + 1) (depth - 1))
      else findClose s (i + 1) depth)"

lemma findClose_bound: "findClose s i depth = Some k \<Longrightarrow> i \<le> k \<and> k < i + length s"
proof (induction s arbitrary: i depth)
  case Nil
  then show ?case by simp
next
  case (Cons c s)
  then show ?case by (fastforce split: if_splits)
qed

lemma length_trim_le: "length (trim s) \<le> length s"
proof -
  have "length (trimEnd (trimStart s)) \<le> length (trimStart s)"
    unfolding trimEnd_def using length_dropWhile_le[of isWhitespace "rev (trimStart s)"] by simp
  also have "\<dots> \<le> length s"
    unfolding trimStart_def by (rule length_dropWhile_le)
  finally show ?thesis by (simp add: trim_def)
qed

lemma length_trim_substring_le: "length (trim (substring str start i)) \<le> length str"
proof -
  have "length (trim (substring str start i)) \<le> length (substring str start i)"
    by (rule length_trim_le)
  also have "\<dots> \<le> length str" by (simp add: substring_def)
  finally show ?thesis .
qed

text \<open>
  \<open>parseNewickNode\<close> and the loop of \<open>parseChildren\<close>, whose index \<open>i\<close> runs to the
  length of the text inclusive; there \<open>str[i]\<close> is \<open>undefined\<close> and equals no character.
\<close>

function parseNewickNode :: "jsstring \<Rightarrow> Imap option \<Rightarrow> GeneTreeNode option"
  and parseChildrenLoop ::
    "jsstring \<Rightarrow> Imap option \<Rightarrow> nat \<Rightarrow> int \<Rightarrow> nat \<Rightarrow> GeneTreeNode list \<Rightarrow> GeneTreeNode list"
where
  "parseNewickNode str0 im =
     (let str = trim str0
      in if str = [] then None
         else if hd str = of_char CHR ''(''
         then (case findClose str 0 0 of
                 None \<Rightarrow> None
               | Some closeIdx \<Rightarrow>
                   (let childrenStr = substring str 1 closeIdx;
                        cs = parseChildrenLoop childrenStr im 0 0 0 [];
                        rest = substringFrom str (closeIdx + 1);
                        bl = parseBranchLength rest
                    in Some (GeneTreeNode [] bl cs None None)))
         else Some (parseLeafNode str im))"
| "parseChildrenLoop str im i depth start cs =
     (if i > length str then cs
      else if i < length str \<and> str ! i = of_char CHR ''(''
      then parseChildrenLoop str im (i + 1) (depth + 1) start cs
      else if i < length str \<and> str ! i = of_char CHR '')''
      then parseChildrenLoop str im (i + 1) (depth - 1) start cs
      else if ((i < length str \<and> str ! i = of_char CHR '','') \<or> i = length str) \<and> depth = 0
      then (let childStr = trim (substring str start i)
            in if childStr \<noteq> []
               then (case parseNewickNode childStr im of
                       Some child \<Rightarrow> parseChildrenLoop str im (i + 1) depth (i + 1) (cs @ [child])
                     | None \<Rightarrow> parseChildrenLoop str im (i + 1) depth (i + 1) cs)
               else parseChildrenLoop str im (i + 1) depth (i + 1) cs)
      else parseChildrenLoop str im (i + 1) depth start cs)"
  by pat_completeness auto
termination
proof (relation "measures
    [\<lambda>x. case x of Inl (s, im) \<Rightarrow> length s | Inr (s, im, i, d, st, cs) \<Rightarrow> length s,
     \<lambda>x. case x of Inl (s, im) \<Rightarrow> 0 | Inr (s, im, i, d, st, cs) \<Rightarrow> length s + 2 - i]",
    goal_cases)
  case 1
  then show ?case by simp
next
  case (2 str0 im str closeIdx childrenStr)
  have "closeIdx < length str" using findClose_bound[of str 0 0 closeIdx] 2 by simp
  then have "length childrenStr < length str" using 2 by (simp add: substring_def)
  also have "length str \<le> length str0" using 2 length_trim_le by simp
  finally show ?case by simp
next
  case (5 str im i depth start cs childStr)
  have "length childStr \<le> length str"
    using 5 length_trim_substring_le by simp
  moreover have "i \<le> length str" using 5 by simp
  ultimately show ?case by auto
qed auto

declare parseNewickNode.simps [simp del] parseChildrenLoop.simps [simp del]

text \<open>
  \<open>treeStr.match(/\[TH=([0-9.]+),\s*TL=([0-9.]+)\]/)\<close>: the two groups at the first
  position where the expression matches.
\<close>

definition isNumChar :: "jschar \<Rightarrow> bool" where
  "isNumChar c \<longleftrightarrow> isDigit c \<or> c = of_char CHR ''.''"

definition annotationAt :: "jsstring \<Rightarrow> (jsstring \<times> jsstring) option" where
  "annotationAt s =
     (if take 4 s = js ''[TH=''
      then (let a = drop 4 s;
                g1 = takeWhile isNumChar a;
                a1 = dropWhile isNumChar a
            in if g1 \<noteq> [] \<and> a1 \<noteq> [] \<and> hd a1 = of_char CHR '',''
               then (let a2 = dropWhile isWhitespace (tl a1)
                     in if take 3 a2 = js ''TL=''
                        then (let b = drop 3 a2;
                                  g2 = takeWhile isNumChar b;
                                  b1 = dropWhile isNumChar b
                              in if g2 \<noteq> [] \<and> b1 \<noteq> [] \<and> hd b1 = of_char CHR '']''
                                 then Some (g1, g2) else None)
                        else None)
               else None)
      else None)"

fun matchAnnotation :: "jsstring \<Rightarrow> (jsstring \<times> jsstring) option" where
  "matchAnnotation [] = None"
| "matchAnnotation (c # s) =
     (case annotationAt (c # s) of
        Some g \<Rightarrow> Some g
      | None \<Rightarrow> matchAnnotation s)"

text \<open>
  \<open>replace(/\s*\[TH=[^\]]+\].*$/, '')\<close>. The expression matches at \<open>[TH=\<close> when a
  closing bracket follows after at least one character and no line terminator follows
  the bracket; the match then runs to the end of the text and begins with the white
  space before \<open>[TH=\<close>.
\<close>

definition isLineTerminator :: "jschar \<Rightarrow> bool" where
  "isLineTerminator c \<longleftrightarrow> c = 10 \<or> c = 13 \<or> c = 8232 \<or> c = 8233"

definition annotationTailAt :: "jsstring \<Rightarrow> bool" where
  "annotationTailAt s \<longleftrightarrow>
     take 4 s = js ''[TH=''
     \<and> (let a = drop 4 s;
             a1 = dropWhile (\<lambda>c. c \<noteq> of_char CHR '']'') a
         in takeWhile (\<lambda>c. c \<noteq> of_char CHR '']'') a \<noteq> [] \<and> a1 \<noteq> []
            \<and> list_all (\<lambda>c. \<not> isLineTerminator c) (tl a1))"

fun findAnnotationTail :: "jsstring \<Rightarrow> nat \<Rightarrow> nat option" where
  "findAnnotationTail [] j = None"
| "findAnnotationTail (c # s) j =
     (if annotationTailAt (c # s) then Some j else findAnnotationTail s (j + 1))"

definition removeAnnotation :: "jsstring \<Rightarrow> jsstring" where
  "removeAnnotation s =
     (case findAnnotationTail s 0 of
        None \<Rightarrow> s
      | Some j \<Rightarrow> trimEnd (take j s))"

text \<open>\<open>replace(/;\s*\d*\s*$/, '')\<close>.\<close>

definition optCountTail :: "jsstring \<Rightarrow> bool" where
  "optCountTail s \<longleftrightarrow>
     dropWhile isWhitespace (dropWhile isDigit (dropWhile isWhitespace s)) = []"

fun stripSemicolonCount :: "jsstring \<Rightarrow> jsstring" where
  "stripSemicolonCount [] = []"
| "stripSemicolonCount (c # s) =
     (if c = of_char CHR '';'' \<and> optCountTail s then [] else c # stripSemicolonCount s)"

definition parseGeneTree :: "jsstring \<Rightarrow> Imap option \<Rightarrow> GeneTree option" where
  "parseGeneTree newickStr im =
     (let treeStr0 = stripSamplePrefix newickStr;
          annotationMatch = matchAnnotation treeStr0;
          th = (case annotationMatch of Some (g1, g2) \<Rightarrow> parseFloat g1 | None \<Rightarrow> Some 0);
          tl' = (case annotationMatch of Some (g1, g2) \<Rightarrow> parseFloat g2 | None \<Rightarrow> Some 0);
          treeStr1 = trim (removeAnnotation treeStr0);
          treeStr2 = trim (stripSemicolonCount treeStr1)
      in if treeStr2 = [] then None
         else (case parseNewickNode treeStr2 im of
                 None \<Rightarrow> None
               | Some rt \<Rightarrow> Some \<lparr>root = rt, treeHeight = th, treeLength = tl'\<rparr>))"

section \<open>Embedded gene tree renderer (embedded-genetree.ts)\<close>


datatype PopName = Named jsstring | Anc real real

record PopulationInfo =
  popName :: PopName
  leftX :: real
  rightX :: real
  startTime :: real
  endTime :: real
  popSpecies :: "jsstring set"


record TreeStyle =
  marginLeft :: real
  marginRight :: real
  marginTop :: real
  marginBottom :: real


text \<open>
  \<open>warned\<close> is the log of \<open>console.warn\<close>: one entry, the species set and the
  coalescence time, for every internal gene-tree node with no containing population.
\<close>

record EmbeddedGeneTreeRenderer =
  style :: TreeStyle
  imap :: Imap
  geneTree :: "GeneTree option"
  fixedScale :: "real option"
  populations :: "PopulationInfo list"
  warned :: "(jsstring set \<times> real) list"



definition setImap :: "Imap \<Rightarrow> EmbeddedGeneTreeRenderer \<Rightarrow> EmbeddedGeneTreeRenderer" where
  "setImap m r = r\<lparr>imap := m\<rparr>"

definition setGeneTree :: "GeneTree option \<Rightarrow> EmbeddedGeneTreeRenderer \<Rightarrow> EmbeddedGeneTreeRenderer" where
  "setGeneTree g r = r\<lparr>geneTree := g\<rparr>"






fun getGeneNodeAge :: "GeneTreeNode \<Rightarrow> real" where
  "getGeneNodeAge (GeneTreeNode n bl [] sp ind) = 0"
| "getGeneNodeAge (GeneTreeNode n bl (firstChild # cs) sp ind) =
     getGeneNodeAge firstChild + gbranchLength firstChild"





section \<open>Auxiliary definitions for the statements\<close>

text \<open>The offsets pushed for the newlines of a byte list, and the starts of the lines of a source.\<close>

fun nlOffsets :: "nat \<Rightarrow> nat \<Rightarrow> byte list \<Rightarrow> nat list" where
  "nlOffsets fsz base [] = []"
| "nlOffsets fsz base (b # bs) =
     (if b = 10 \<and> base + 1 < fsz then [base + 1] else []) @ nlOffsets fsz (base + 1) bs"

fun lineStarts :: "nat \<Rightarrow> byte list list \<Rightarrow> nat list" where
  "lineStarts base [] = []"
| "lineStarts base (l # ls) = base # lineStarts (base + length l + 1) ls"



fun siblingsConsistent :: "GeneTreeNode \<Rightarrow> bool" where
  "siblingsConsistent (GeneTreeNode n bl cs sp ind) \<longleftrightarrow>
     (\<forall>c\<in>set cs. \<forall>d\<in>set cs.
        getGeneNodeAge c + gbranchLength c = getGeneNodeAge d + gbranchLength d)
     \<and> (\<forall>c\<in>set cs. siblingsConsistent c)"













function tokens :: "jsstring \<Rightarrow> jsstring list" where
  "tokens s =
     (let s1 = dropWhile isWhitespace s
      in if s1 = [] then []
         else takeWhile (\<lambda>c. \<not> isWhitespace c) s1 # tokens (dropWhile (\<lambda>c. \<not> isWhitespace c) s1))"
  by pat_completeness auto
termination
proof (relation "measure length")
  fix s s1 :: jsstring
  assume s1: "s1 = dropWhile isWhitespace s" and ne: "s1 \<noteq> []"
  have "\<not> isWhitespace (hd s1)"
    using hd_dropWhile[of isWhitespace s] ne s1 by simp
  then have "length (dropWhile (\<lambda>c. \<not> isWhitespace c) s1) < length s1"
    using ne by (cases s1) (simp_all add: le_imp_less_Suc length_dropWhile_le)
  moreover have "length s1 \<le> length s"
    unfolding s1 by (rule length_dropWhile_le)
  ultimately show "(dropWhile (\<lambda>c. \<not> isWhitespace c) s1, s) \<in> measure length" by simp
qed simp

declare tokens.simps [simp del]

definition lineEntry :: "jsstring \<Rightarrow> (jsstring \<times> jsstring) option" where
  "lineEntry line =
     (case tokens line of
        ind # sp # extra \<Rightarrow> Some (ind, sp)
      | _ \<Rightarrow> None)"

definition imapEntries :: "jsstring \<Rightarrow> (jsstring \<times> jsstring) list" where
  "imapEntries content = List.map_filter lineEntry (splitOn 10 content)"
section \<open>Properties of the line index\<close>

lemma scanChunk_nlOffsets:
  "scanChunk fsz offset bs i offs = offs @ nlOffsets fsz (offset + i) bs"
  by (induction bs arbitrary: i offs) (auto simp: Let_def)

lemma nlOffsets_append:
  "nlOffsets fsz base (xs @ ys) = nlOffsets fsz base xs @ nlOffsets fsz (base + length xs) ys"
  by (induction xs arbitrary: base) auto

lemma indexLoop_nlOffsets:
  "fileSize fi = length (file' fi) \<Longrightarrow> offset \<le> length (file' fi) \<Longrightarrow>
   indexLoop fi offset offs = offs @ nlOffsets (fileSize fi) offset (drop offset (file' fi))"
proof (induction fi offset offs rule: indexLoop.induct)
  case (1 fi offset offs)
  show ?case
  proof (cases "offset < fileSize fi")
    case False
    with "1.prems" show ?thesis by (subst indexLoop.simps) simp
  next
    case True
    define e where "e = min (offset + CHUNK_SIZE) (fileSize fi)"
    have e_le: "e \<le> length (file' fi)" and off_le: "offset \<le> e"
      using "1.prems" True by (auto simp: e_def)
    have split: "drop offset (file' fi) = slice (file' fi) offset e @ drop e (file' fi)"
    proof -
      have "drop e (file' fi) = drop (e - offset) (drop offset (file' fi))"
        using off_le by simp
      then show ?thesis
        unfolding slice_def by (metis append_take_drop_id)
    qed
    have len: "length (slice (file' fi) offset e) = e - offset"
      using e_le by (simp add: slice_def)
    have IH: "indexLoop fi e (scanChunk (fileSize fi) offset (slice (file' fi) offset e) 0 offs)
       = scanChunk (fileSize fi) offset (slice (file' fi) offset e) 0 offs
         @ nlOffsets (fileSize fi) e (drop e (file' fi))"
      using "1.IH"[OF True e_def refl] "1.prems"(1) e_le by simp
    have "indexLoop fi offset offs
       = indexLoop fi e (scanChunk (fileSize fi) offset (slice (file' fi) offset e) 0 offs)"
      using True by (subst indexLoop.simps) (simp add: e_def Let_def)
    also have "\<dots> = scanChunk (fileSize fi) offset (slice (file' fi) offset e) 0 offs
                    @ nlOffsets (fileSize fi) e (drop e (file' fi))"
      by (rule IH)
    also have "\<dots> = offs @ nlOffsets (fileSize fi) offset (slice (file' fi) offset e)
                    @ nlOffsets (fileSize fi) e (drop e (file' fi))"
      by (simp add: scanChunk_nlOffsets)
    also have "\<dots> = offs @ nlOffsets (fileSize fi) offset (drop offset (file' fi))"
      using off_le by (subst split) (simp add: nlOffsets_append len)
    finally show ?thesis .
  qed
qed


lemma nlOffsets_no_newline: "10 \<notin> set l \<Longrightarrow> nlOffsets fsz base l = []"
  by (induction l arbitrary: base) auto

lemma fileOfLines_Cons: "fileOfLines (l # ls) = l @ [10] @ fileOfLines ls"
  by (simp add: fileOfLines_def)

lemma fileOfLines_append: "fileOfLines (xs @ ys) = fileOfLines xs @ fileOfLines ys"
  by (simp add: fileOfLines_def)

lemma fileOfLines_nonempty: "ls \<noteq> [] \<Longrightarrow> fileOfLines ls \<noteq> []"
  by (cases ls) (simp_all add: fileOfLines_def)

lemma nlOffsets_fileOfLines:
  "\<forall>l\<in>set ls. 10 \<notin> set l \<Longrightarrow> fsz = base + length (fileOfLines ls) \<Longrightarrow>
   nlOffsets fsz base (fileOfLines ls) = tl (lineStarts base ls)"
proof (induction ls arbitrary: base)
  case Nil
  then show ?case by (simp add: fileOfLines_def)
next
  case (Cons l ls)
  have no: "nlOffsets fsz base l = []"
    using Cons.prems(1) by (simp add: nlOffsets_no_newline)
  have rest: "nlOffsets fsz (base + length l + 1) (fileOfLines ls)
              = tl (lineStarts (base + length l + 1) ls)"
    using Cons.prems by (intro Cons.IH) (simp_all add: fileOfLines_Cons)
  show ?case
  proof (cases ls)
    case Nil
    with Cons.prems(2) no show ?thesis
      by (simp add: fileOfLines_def nlOffsets_append)
  next
    case (Cons l' ls')
    then have "base + length l + 1 < fsz"
      using Cons.prems(2) fileOfLines_nonempty[of ls] by (simp add: fileOfLines_Cons)
    with no rest Cons show ?thesis
      by (simp add: fileOfLines_Cons nlOffsets_append)
  qed
qed

lemma length_lineStarts: "length (lineStarts base ls) = length ls"
  by (induction ls arbitrary: base) auto

lemma lineStarts_nth:
  "i < length ls \<Longrightarrow> lineStarts base ls ! i = base + length (fileOfLines (take i ls))"
proof (induction ls arbitrary: base i)
  case Nil
  then show ?case by simp
next
  case (Cons l ls)
  then show ?case
    by (cases i) (simp_all add: fileOfLines_def)
qed

lemma lineStarts_less:
  "x \<in> set (lineStarts base ls) \<Longrightarrow> x < base + length (fileOfLines ls)"
proof (induction ls arbitrary: base)
  case Nil
  then show ?case by simp
next
  case (Cons l ls)
  then show ?case by (fastforce simp: fileOfLines_Cons)
qed

lemma indexLoop_lines:
  assumes "\<forall>l\<in>set ls. 10 \<notin> set l" and "ls \<noteq> []"
  shows "indexLoop (newFileIndexer (fileOfLines ls) skip) 0 [0] = lineStarts 0 ls"
proof -
  let ?fi = "newFileIndexer (fileOfLines ls) skip"
  have "indexLoop ?fi 0 [0] = [0] @ nlOffsets (length (fileOfLines ls)) 0 (fileOfLines ls)"
    using indexLoop_nlOffsets[of ?fi 0 "[0]"] by (simp add: newFileIndexer_def)
  also have "\<dots> = [0] @ tl (lineStarts 0 ls)"
    using assms(1) by (simp add: nlOffsets_fileOfLines)
  also have "\<dots> = lineStarts 0 ls"
    using assms(2) by (cases ls) simp_all
  finally show ?thesis .
qed

lemma newFileIndexer_fields:
  "file' (newFileIndexer f skip) = f" "fileSize (newFileIndexer f skip) = length f"
  "skipFirstLine (newFileIndexer f skip) = skip"
  by (simp_all add: newFileIndexer_def)

lemma index_offsets:
  assumes "\<forall>l\<in>set ls. 10 \<notin> set l"
  shows "treeOffsets (index (newFileIndexer (fileOfLines ls) skip))
         = (if skip then tl (lineStarts 0 ls) else lineStarts 0 ls)"
proof (cases ls)
  case Nil
  have "indexLoop (newFileIndexer [] skip) 0 [0] = [0]"
    by (subst indexLoop.simps) (simp add: newFileIndexer_fields)
  with Nil show ?thesis
    by (simp add: index_def fileOfLines_def newFileIndexer_fields)
next
  case (Cons l ls')
  then have ne: "ls \<noteq> []" by simp
  let ?fi = "newFileIndexer (fileOfLines ls) skip"
  have loop: "indexLoop ?fi 0 [0] = lineStarts 0 ls"
    using assms ne by (rule indexLoop_lines)
  have "last (lineStarts 0 ls) \<in> set (lineStarts 0 ls)"
    using ne by (cases ls) simp_all
  then have "last (lineStarts 0 ls) < fileSize ?fi"
    using lineStarts_less[of _ 0 ls] by (simp add: newFileIndexer_fields)
  then show ?thesis
    using ne by (simp add: index_def Let_def loop length_lineStarts newFileIndexer_fields)
qed

lemma index_fields:
  "file' (index fi) = file' fi" "fileSize (index fi) = fileSize fi"
  by (simp_all add: index_def Let_def)

lemma slice_line:
  assumes "i < length ls"
  shows "slice (fileOfLines ls) (length (fileOfLines (take i ls)))
           (length (fileOfLines (take (Suc i) ls))) = ls ! i @ [10]"
proof -
  have ls: "ls = take i ls @ [ls ! i] @ drop (Suc i) ls"
    using assms by (simp add: id_take_nth_drop)
  have f: "fileOfLines ls
           = fileOfLines (take i ls) @ (ls ! i @ [10]) @ fileOfLines (drop (Suc i) ls)"
    by (subst ls) (simp add: fileOfLines_append fileOfLines_Cons fileOfLines_def)
  have t: "fileOfLines (take (Suc i) ls) = fileOfLines (take i ls) @ (ls ! i @ [10])"
    using assms by (simp add: take_Suc_conv_app_nth fileOfLines_append fileOfLines_def)
  show ?thesis
    unfolding slice_def by (subst f, subst t) simp
qed

lemma trimStart_snoc:
  "trimStart (s @ [c]) = (if \<forall>x\<in>set s. isWhitespace x then trimStart [c] else trimStart s @ [c])"
  by (simp add: trimStart_def dropWhile_append)

lemma trim_snoc_whitespace:
  assumes "isWhitespace c"
  shows "trim (s @ [c]) = trim s"
proof (cases "\<forall>x\<in>set s. isWhitespace x")
  case True
  then have "trimStart s = []" "trimStart (s @ [c]) = []"
    using assms by (simp_all add: trimStart_def)
  then show ?thesis by (simp add: trim_def)
next
  case False
  then have "trimStart (s @ [c]) = trimStart s @ [c]"
    by (auto simp: trimStart_snoc)
  then show ?thesis
    using assms by (simp add: trim_def trimEnd_def)
qed

lemma getTree_drop_lineStarts:
  assumes fi: "file' fi = fileOfLines ls" "fileSize fi = length (fileOfLines ls)"
              "treeOffsets fi = drop k (lineStarts 0 ls)"
    and i: "i + k < length ls"
  shows "text' (getTree decode fi (int i)) = trim (decode (ls ! (i + k) @ [10]))"
proof -
  have len: "length (treeOffsets fi) = length ls - k"
    by (simp add: fi length_lineStarts)
  have start: "treeOffsets fi ! i = length (fileOfLines (take (i + k) ls))"
    using i by (simp add: fi length_lineStarts lineStarts_nth add.commute)
  have stop: "(if int i + 1 < int (length (treeOffsets fi))
               then treeOffsets fi ! nat (int i + 1) else fileSize fi)
              = length (fileOfLines (take (Suc (i + k)) ls))"
  proof (cases "Suc (i + k) < length ls")
    case True
    then have "treeOffsets fi ! Suc i = length (fileOfLines (take (Suc (i + k)) ls))"
      by (simp add: fi length_lineStarts lineStarts_nth add.commute)
    moreover have "nat (int i + 1) = Suc i" by simp
    ultimately show ?thesis using True len by simp
  next
    case False
    with i have "Suc (i + k) = length ls" by simp
    then show ?thesis using len fi(2) by simp
  qed
  have "\<not> (int i < 0 \<or> int (length (treeOffsets fi)) \<le> int i)"
    using i len by simp
  then show ?thesis
    unfolding getTree_def Let_def
    using start stop slice_line[OF i] fi(1) by simp
qed

lemma getTree_index_lines:
  assumes "\<forall>l\<in>set ls. 10 \<notin> set l" and "i + (if skip then 1 else 0) < length ls"
  shows "text' (getTree decode (index (newFileIndexer (fileOfLines ls) skip)) (int i))
         = trim (decode (ls ! (i + (if skip then 1 else 0)) @ [10]))"
proof -
  let ?fi = "index (newFileIndexer (fileOfLines ls) skip)"
  have "treeOffsets ?fi = drop (if skip then 1 else 0) (lineStarts 0 ls)"
    using assms(1) by (simp add: index_offsets drop_Suc)
  then show ?thesis
    using assms(2)
    by (intro getTree_drop_lineStarts) (simp_all add: index_fields newFileIndexer_fields)
qed

lemma getTreeCount_index_lines:
  assumes "\<forall>l\<in>set ls. 10 \<notin> set l"
  shows "getTreeCount (index (newFileIndexer (fileOfLines ls) skip))
         = (if skip then length ls - 1 else length ls)"
  using assms by (simp add: getTreeCount_def index_offsets length_lineStarts)

text \<open>
  C2 (as amended). A source made of \<open>L\<close> lines, each followed by a newline and none
  containing one, is indexed to \<open>L\<close> entries, and \<open>getTree i\<close> returns the text of line
  \<open>i\<close> with leading and trailing white space trimmed; with \<open>skipFirstLine\<close> the count is
  \<open>L - 1\<close> and entry 0 is the trimmed second line. The decoder is any function that maps
  a final newline byte to a final newline character.
\<close>

theorem index_getTree_lines:
  assumes "\<forall>l\<in>set ls. 10 \<notin> set l"
    and "\<forall>bs. decode (bs @ [10]) = decode bs @ [10]"
  shows "getTreeCount (index (newFileIndexer (fileOfLines ls) False)) = length ls
       \<and> (\<forall>i<length ls.
            text' (getTree decode (index (newFileIndexer (fileOfLines ls) False)) (int i))
            = trim (decode (ls ! i)))
       \<and> getTreeCount (index (newFileIndexer (fileOfLines ls) True)) = length ls - 1
       \<and> (2 \<le> length ls \<longrightarrow>
            text' (getTree decode (index (newFileIndexer (fileOfLines ls) True)) 0)
            = trim (decode (ls ! 1)))"
proof -
  have ws: "isWhitespace 10" by (simp add: isWhitespace_def)
  have tr: "trim (decode (l @ [10])) = trim (decode l)" for l
    using assms(2) ws by (simp add: trim_snoc_whitespace)
  have a: "\<forall>i<length ls.
            text' (getTree decode (index (newFileIndexer (fileOfLines ls) False)) (int i))
            = trim (decode (ls ! i))"
    using getTree_index_lines[OF assms(1), of _ False decode] tr by simp
  have b: "2 \<le> length ls \<longrightarrow>
            text' (getTree decode (index (newFileIndexer (fileOfLines ls) True)) 0)
            = trim (decode (ls ! 1))"
    using getTree_index_lines[OF assms(1), of 0 True decode] tr by simp
  show ?thesis
    using a b getTreeCount_index_lines[OF assms(1)] by simp
qed

theorem index_getTree_lines_witness:
  "getTreeCount (index (newFileIndexer (fileOfLines [[97], [98, 99]]) False)) = 2
   \<and> text' (getTree (\<lambda>b. b) (index (newFileIndexer (fileOfLines [[97], [98, 99]]) False)) 1)
     = [98, 99]
   \<and> getTreeCount (index (newFileIndexer (fileOfLines [[97], [98, 99]]) True)) = 1
   \<and> text' (getTree (\<lambda>b. b) (index (newFileIndexer (fileOfLines [[97], [98, 99]]) True)) 0)
     = [98, 99]"
proof -
  have h1: "\<forall>l\<in>set [[97], [98, 99]]. (10::nat) \<notin> set l" by simp
  have h2: "\<forall>bs. (\<lambda>b. b) (bs @ [10::nat]) = (\<lambda>b. b) bs @ [10]" by simp
  have t: "trim [98, 99] = [98, 99]"
    by (simp add: trim_def trimStart_def trimEnd_def isWhitespace_def)
  note T = index_getTree_lines[OF h1 h2]
  have "text' (getTree (\<lambda>b. b) (index (newFileIndexer (fileOfLines [[97], [98, 99]]) False))
          (int 1)) = trim ([[97], [98, 99]] ! 1)"
    using T[THEN conjunct2, THEN conjunct1, THEN spec, of 1] by simp
  then show ?thesis
    using T t by simp
qed

text \<open>
  C2 as stated fails on a line with leading white space: for the one-line source
  \<open>" a\n"\<close> entry 0 is \<open>"a"\<close>, not the line's text \<open>" a"\<close>.
\<close>

theorem getTree_exact_text_counterexample:
  "text' (getTree (\<lambda>b. b) (index (newFileIndexer (fileOfLines [[32, 97]]) False)) 0) = [97]
   \<and> text' (getTree (\<lambda>b. b) (index (newFileIndexer (fileOfLines [[32, 97]]) False)) 0)
       \<noteq> [32, 97]"
proof -
  have "text' (getTree (\<lambda>b. b) (index (newFileIndexer (fileOfLines [[32, 97]]) False)) (int 0))
        = trim ([[32, 97]] ! (0 + (if False then 1 else 0)) @ [10])"
    by (rule getTree_index_lines) simp_all
  moreover have "trim [32, 97, 10] = [97]"
    by (simp add: trim_def trimStart_def trimEnd_def isWhitespace_def)
  ultimately show ?thesis by simp
qed

text \<open>
  C9. For an index below 0 or at least the count, \<open>getTree\<close> returns the empty string,
  reads nothing, and leaves the indexer as it was.
\<close>

theorem getTree_out_of_range:
  "idx < 0 \<or> int (getTreeCount fi) \<le> idx \<Longrightarrow>
   getTree decode fi idx = \<lparr>text' = [], reads = [], indexer = fi\<rparr>"
  by (auto simp: getTree_def getTreeCount_def)

theorem getTree_out_of_range_witness:
  "((5::int) < 0 \<or> int (getTreeCount (index (newFileIndexer (fileOfLines [[97], [98, 99]]) False))) \<le> 5)
   \<and> getTree (\<lambda>b. b) (index (newFileIndexer (fileOfLines [[97], [98, 99]]) False)) 5
     = \<lparr>text' = [], reads = [],
        indexer = index (newFileIndexer (fileOfLines [[97], [98, 99]]) False)\<rparr>"
proof -
  have c: "getTreeCount (index (newFileIndexer (fileOfLines [[97], [98, 99]]) False)) = 2"
    by (subst getTreeCount_index_lines) simp_all
  then have h: "(5::int) < 0
      \<or> int (getTreeCount (index (newFileIndexer (fileOfLines [[97], [98, 99]]) False))) \<le> 5"
    by simp
  show ?thesis
    using h getTree_out_of_range[OF h] by simp
qed
section \<open>Node ages and tree height\<close>






lemma getGeneNodeAge_first:
  "c \<in> set (gchildren p) \<Longrightarrow>
   getGeneNodeAge p = getGeneNodeAge (hd (gchildren p)) + gbranchLength (hd (gchildren p))"
  by (cases p; cases "gchildren p") auto



declare siblingsConsistent.simps [simp del]





lemma siblingsConsistent_leaf: "siblingsConsistent (GeneTreeNode n bl [] sp ind)"
  by (simp add: siblingsConsistent.simps)



section \<open>The population intervals and the containment query\<close>
































section \<open>Leaf tags and the Imap\<close>






lemmas string_defs = trim_def trimStart_def trimEnd_def isWhitespace_def isDigit_def js_def


lemma tokens_dropWhile: "tokens (dropWhile isWhitespace s) = tokens s"
  by (subst (1 2) tokens.simps) simp

lemma tokens_Cons_whitespace: "isWhitespace w \<Longrightarrow> tokens (w # s) = tokens s"
  using tokens_dropWhile[of "w # s"] tokens_dropWhile[of s] by simp

lemma tokens_Nil: "tokens [] = []"
  by (subst tokens.simps) simp

lemma tokens_snoc_whitespace:
  "isWhitespace w \<Longrightarrow> tokens (s @ [w]) = tokens s"
proof (induction s rule: tokens.induct)
  case (1 s)
  define s1 where "s1 = dropWhile isWhitespace s"
  show ?case
  proof (cases "s1 = []")
    case True
    then have all: "\<forall>c\<in>set s. isWhitespace c"
      unfolding s1_def by (simp add: dropWhile_eq_Nil_conv)
    then have "dropWhile isWhitespace (s @ [w]) = []"
      using 1(2) by (simp add: dropWhile_eq_Nil_conv)
    then show ?thesis
      using True unfolding s1_def by (subst (1 2) tokens.simps) simp
  next
    case False
    then have ex: "\<exists>c\<in>set s. \<not> isWhitespace c"
      unfolding s1_def by (simp add: dropWhile_eq_Nil_conv)
    then have d: "dropWhile isWhitespace (s @ [w]) = s1 @ [w]"
      unfolding s1_def by (auto simp: dropWhile_append)
    let ?N = "\<lambda>c. \<not> isWhitespace c"
    have t: "takeWhile ?N (s1 @ [w]) = takeWhile ?N s1"
    proof (cases "\<forall>c\<in>set s1. ?N c")
      case True
      have "takeWhile ?N (s1 @ [w]) = s1" using True 1(2) by (simp add: takeWhile_append)
      moreover have "takeWhile ?N s1 = s1" using True by (simp add: takeWhile_eq_all_conv)
      ultimately show ?thesis by (rule trans[OF _ sym])
    next
      case False
      then show ?thesis by (auto simp: takeWhile_append)
    qed
    have dd: "dropWhile ?N (s1 @ [w]) = dropWhile ?N s1 @ [w]"
    proof (cases "\<forall>c\<in>set s1. ?N c")
      case True
      then have "dropWhile ?N s1 = []" by (simp add: dropWhile_eq_Nil_conv)
      then show ?thesis using True 1(2) by (simp add: dropWhile_append)
    next
      case False
      then show ?thesis by (auto simp: dropWhile_append)
    qed
    have IH: "tokens (dropWhile ?N s1 @ [w]) = tokens (dropWhile ?N s1)"
      using 1(1)[OF s1_def False 1(2)] .
    have "tokens (s @ [w]) = takeWhile ?N s1 # tokens (dropWhile ?N s1 @ [w])"
      by (subst tokens.simps) (simp add: d t dd)
    also have "\<dots> = tokens s"
      unfolding IH using False by (subst (2) tokens.simps) (simp add: s1_def Let_def)
    finally show ?thesis .
  qed
qed

lemma tokens_append_whitespace:
  "\<forall>c\<in>set w. isWhitespace c \<Longrightarrow> tokens (s @ w) = tokens s"
proof (induction w rule: rev_induct)
  case Nil
  then show ?case by simp
next
  case (snoc c w)
  have "tokens (s @ w @ [c]) = tokens ((s @ w) @ [c])" by simp
  also have "\<dots> = tokens (s @ w)" using snoc.prems by (intro tokens_snoc_whitespace) simp
  also have "\<dots> = tokens s" using snoc by simp
  finally show ?case .
qed

lemma trimEnd_decomp: "\<exists>w. s = trimEnd s @ w \<and> (\<forall>c\<in>set w. isWhitespace c)"
proof -
  have "rev s = takeWhile isWhitespace (rev s) @ dropWhile isWhitespace (rev s)" by simp
  then have "s = rev (dropWhile isWhitespace (rev s)) @ rev (takeWhile isWhitespace (rev s))"
    by (metis rev_append rev_rev_ident)
  moreover have "\<forall>c\<in>set (rev (takeWhile isWhitespace (rev s))). isWhitespace c"
    by (auto dest: set_takeWhileD)
  ultimately show ?thesis unfolding trimEnd_def by blast
qed

lemma tokens_trimEnd: "tokens (trimEnd s) = tokens s"
proof -
  obtain w where "s = trimEnd s @ w" "\<forall>c\<in>set w. isWhitespace c"
    using trimEnd_decomp by blast
  then show ?thesis using tokens_append_whitespace[of w "trimEnd s"] by simp
qed

lemma tokens_trim: "tokens (trim s) = tokens s"
  by (simp add: trim_def tokens_trimEnd trimStart_def tokens_dropWhile)

lemma trim_ends:
  assumes "trim s \<noteq> []"
  shows "\<not> isWhitespace (hd (trim s))" "\<not> isWhitespace (last (trim s))"
proof -
  define y where "y = trimStart s"
  have t: "trim s = rev (dropWhile isWhitespace (rev y))"
    by (simp add: trim_def trimEnd_def y_def)
  have ne: "dropWhile isWhitespace (rev y) \<noteq> []" using assms t by simp
  have "\<not> isWhitespace (hd (dropWhile isWhitespace (rev y)))"
    using hd_dropWhile[OF ne] .
  then show "\<not> isWhitespace (last (trim s))"
    using ne by (simp add: t last_rev)
  obtain w where w: "y = trim s @ w"
    using trimEnd_decomp[of y] by (auto simp: trim_def y_def)
  have yne: "y \<noteq> []" using w assms by auto
  then have "\<not> isWhitespace (hd y)"
    unfolding y_def trimStart_def using hd_dropWhile by blast
  moreover have "hd y = hd (trim s)" using w assms by (metis hd_append2)
  ultimately show "\<not> isWhitespace (hd (trim s))" by simp
qed

lemma splitWhitespace_tokens:
  assumes "t \<noteq> []" "\<not> isWhitespace (hd t)" "\<not> isWhitespace (last t)"
  shows "splitWhitespace t = tokens t"
  using assms
proof (induction t rule: splitWhitespace.induct)
  case (1 s)
  let ?N = "\<lambda>c. \<not> isWhitespace c"
  define rest where "rest = dropWhile ?N s"
  have ds: "dropWhile isWhitespace s = s"
    using 1(2,3) by (cases s) simp_all
  have tok: "tokens s = takeWhile ?N s # tokens rest"
    using 1(2) by (subst tokens.simps) (simp add: ds rest_def)
  show ?case
  proof (cases "rest = []")
    case True
    then show ?thesis
      unfolding tok by (subst splitWhitespace.simps) (simp add: rest_def[symmetric] tokens_Nil)
  next
    case False
    define t' where "t' = dropWhile isWhitespace rest"
    obtain p where p: "s = p @ rest"
      unfolding rest_def by (metis takeWhile_dropWhile_id)
    have lr: "last rest = last s" using p False by simp
    then have "\<not> isWhitespace (last rest)" using 1(4) by simp
    then have "\<exists>c\<in>set rest. \<not> isWhitespace c"
      using False last_in_set by blast
    then have ne: "t' \<noteq> []"
      unfolding t'_def by (simp add: dropWhile_eq_Nil_conv)
    have hd: "\<not> isWhitespace (hd t')"
      unfolding t'_def using hd_dropWhile ne t'_def by blast
    obtain q where q: "rest = q @ t'"
      unfolding t'_def by (metis takeWhile_dropWhile_id)
    have "last t' = last s" using q ne lr by simp
    then have la: "\<not> isWhitespace (last t')" using 1(4) by simp
    have IH: "splitWhitespace t' = tokens t'"
      using 1(1)[OF refl rest_def False] ne hd la unfolding t'_def by blast
    have "splitWhitespace s = takeWhile ?N s # splitWhitespace t'"
      using False by (subst splitWhitespace.simps) (simp add: rest_def[symmetric] t'_def Let_def)
    also have "\<dots> = takeWhile ?N s # tokens rest"
    proof -
      have "tokens t' = tokens rest" unfolding t'_def by (rule tokens_dropWhile)
      then show ?thesis using IH by simp
    qed
    finally show ?thesis unfolding tok .
  qed
qed

lemma imapLoop_step:
  "imapLoop (line # lines) m =
     imapLoop lines (case lineEntry line of None \<Rightarrow> m | Some (a, b) \<Rightarrow> m(a \<mapsto> b))"
proof (cases "trim line = []")
  case True
  then have "tokens line = []" using tokens_trim[of line] by (simp add: tokens_Nil)
  then show ?thesis using True by (simp add: lineEntry_def)
next
  case False
  have sw: "splitWhitespace (trim line) = tokens line"
    using splitWhitespace_tokens[OF False trim_ends[OF False]] tokens_trim by simp
  show ?thesis
  proof (cases "tokens line")
    case Nil
    then show ?thesis using False sw by (simp add: lineEntry_def)
  next
    case (Cons a ts)
    then show ?thesis
      using False sw by (cases ts) (simp_all add: lineEntry_def)
  qed
qed

lemma imapLoop_map_of:
  "imapLoop ls m = m ++ map_of (rev (List.map_filter lineEntry ls))"
proof (induction ls arbitrary: m)
  case Nil
  then show ?case by (simp add: map_filter_simps)
next
  case (Cons l ls)
  show ?case
  proof (cases "lineEntry l")
    case None
    have "imapLoop (l # ls) m = imapLoop ls m"
      by (subst imapLoop_step) (simp add: None)
    then show ?thesis
      by (simp add: Cons.IH map_filter_simps None del: imapLoop.simps)
  next
    case (Some e)
    obtain a b where e: "e = (a, b)" by (cases e)
    have "imapLoop (l # ls) m = imapLoop ls (m(a \<mapsto> b))"
      by (subst imapLoop_step) (simp add: Some e)
    also have "\<dots> = m(a \<mapsto> b) ++ map_of (rev (List.map_filter lineEntry ls))"
      by (rule Cons.IH)
    also have "\<dots> = m ++ map_of (rev (List.map_filter lineEntry (l # ls)))"
      by (auto simp: map_filter_simps Some e fun_eq_iff map_add_def split: option.splits)
    finally show ?thesis .
  qed
qed

lemma splitOn_nonempty: "splitOn c s \<noteq> []"
  by (induction s) auto

lemma splitOn_snoc:
  "splitOn c (s @ [w]) =
     (if w = c then splitOn c s @ [[]]
      else butlast (splitOn c s) @ [last (splitOn c s) @ [w]])"
proof (induction s)
  case Nil
  then show ?case by simp
next
  case (Cons d s)
  obtain l r where r: "splitOn c s = l # r"
    using splitOn_nonempty[of c s] by (cases "splitOn c s") auto
  show ?case
  proof (cases "w = c")
    case True
    then show ?thesis using Cons r by simp
  next
    case False
    then show ?thesis using Cons r by (cases r) auto
  qed
qed

lemma lineEntry_Nil: "lineEntry [] = None"
  by (simp add: lineEntry_def tokens_Nil)

lemma lineEntry_Cons_whitespace: "isWhitespace w \<Longrightarrow> lineEntry (w # l) = lineEntry l"
  by (simp add: lineEntry_def tokens_Cons_whitespace)

lemma lineEntry_snoc_whitespace: "isWhitespace w \<Longrightarrow> lineEntry (l @ [w]) = lineEntry l"
  by (simp add: lineEntry_def tokens_snoc_whitespace)

lemma map_filter_append:
  "List.map_filter f (xs @ ys) = List.map_filter f xs @ List.map_filter f ys"
  by (simp add: List.map_filter_def)

lemma entries_Cons_whitespace:
  assumes "isWhitespace w"
  shows "List.map_filter lineEntry (splitOn 10 (w # s)) = List.map_filter lineEntry (splitOn 10 s)"
proof -
  obtain l r where r: "splitOn 10 s = l # r"
    using splitOn_nonempty[of 10 s] by (cases "splitOn 10 s") auto
  show ?thesis
  proof (cases "w = 10")
    case True
    then show ?thesis by (simp add: map_filter_simps lineEntry_Nil)
  next
    case False
    then show ?thesis
      using r lineEntry_Cons_whitespace[OF assms, of l] by (simp add: map_filter_simps)
  qed
qed

lemma entries_dropWhile:
  "List.map_filter lineEntry (splitOn 10 (dropWhile isWhitespace s))
   = List.map_filter lineEntry (splitOn 10 s)"
proof (induction s)
  case Nil
  then show ?case by simp
next
  case (Cons c s)
  show ?case
  proof (cases "isWhitespace c")
    case True
    then show ?thesis using Cons entries_Cons_whitespace[OF True, of s] by simp
  next
    case False
    then show ?thesis by simp
  qed
qed

lemma entries_snoc_whitespace:
  assumes "isWhitespace w"
  shows "List.map_filter lineEntry (splitOn 10 (s @ [w])) = List.map_filter lineEntry (splitOn 10 s)"
proof -
  let ?r = "splitOn 10 s"
  have r: "?r = butlast ?r @ [last ?r]"
    using splitOn_nonempty[of 10 s] by simp
  show ?thesis
  proof (cases "w = 10")
    case True
    then show ?thesis
      by (simp add: splitOn_snoc map_filter_append map_filter_simps lineEntry_Nil)
  next
    case False
    have "List.map_filter lineEntry (splitOn 10 (s @ [w]))
          = List.map_filter lineEntry (butlast ?r) @ List.map_filter lineEntry [last ?r @ [w]]"
      using False by (simp add: splitOn_snoc map_filter_append)
    also have "\<dots> = List.map_filter lineEntry (butlast ?r) @ List.map_filter lineEntry [last ?r]"
      by (simp add: map_filter_simps lineEntry_snoc_whitespace[OF assms])
    also have "\<dots> = List.map_filter lineEntry (butlast ?r @ [last ?r])"
      by (simp add: map_filter_append)
    also have "\<dots> = List.map_filter lineEntry ?r"
      using r by simp
    finally show ?thesis .
  qed
qed

lemma entries_append_whitespace:
  "\<forall>c\<in>set w. isWhitespace c \<Longrightarrow>
   List.map_filter lineEntry (splitOn 10 (s @ w)) = List.map_filter lineEntry (splitOn 10 s)"
proof (induction w rule: rev_induct)
  case Nil
  then show ?case by simp
next
  case (snoc c w)
  have "List.map_filter lineEntry (splitOn 10 (s @ w @ [c]))
        = List.map_filter lineEntry (splitOn 10 ((s @ w) @ [c]))" by simp
  also have "\<dots> = List.map_filter lineEntry (splitOn 10 (s @ w))"
    using snoc.prems by (intro entries_snoc_whitespace) simp
  also have "\<dots> = List.map_filter lineEntry (splitOn 10 s)"
    using snoc by simp
  finally show ?case .
qed

lemma entries_trim:
  "List.map_filter lineEntry (splitOn 10 (trim s)) = List.map_filter lineEntry (splitOn 10 s)"
proof -
  obtain w where w: "trimStart s = trimEnd (trimStart s) @ w" "\<forall>c\<in>set w. isWhitespace c"
    using trimEnd_decomp by blast
  have "List.map_filter lineEntry (splitOn 10 (trim s))
        = List.map_filter lineEntry (splitOn 10 (trimEnd (trimStart s) @ w))"
    using entries_append_whitespace[OF w(2)] by (simp add: trim_def)
  also have "\<dots> = List.map_filter lineEntry (splitOn 10 (trimStart s))"
    using w(1) by simp
  also have "\<dots> = List.map_filter lineEntry (splitOn 10 s)"
    unfolding trimStart_def by (rule entries_dropWhile)
  finally show ?thesis .
qed

lemma last_entry_snoc:
  "(case ys @ [z] of [] \<Rightarrow> None | e # es' \<Rightarrow> Some (snd (last (e # es')))) = Some (snd z)"
  by (cases ys) simp_all

lemma map_of_rev_last:
  "map_of (rev es) k =
     (case filter (\<lambda>e. fst e = k) es of [] \<Rightarrow> None | e # es' \<Rightarrow> Some (snd (last (e # es'))))"
proof (induction es rule: rev_induct)
  case Nil
  then show ?case by simp
next
  case (snoc x es)
  obtain a b where x: "x = (a, b)" by (cases x)
  show ?case
  proof (cases "a = k")
    case True
    then show ?thesis using x by (simp add: last_entry_snoc)
  next
    case False
    then show ?thesis using x snoc by simp
  qed
qed

lemma parseImap_entries: "parseImap content = map_of (rev (imapEntries content))"
  by (simp add: parseImap_def imapLoop_map_of entries_trim imapEntries_def)

text \<open>
  C10. The mapping that \<open>parseImap\<close> returns is decided by the entries of the file
  alone, that is by the first two tokens of each line that has two: a key is mapped to
  the species of the last entry whose individual is the key, and to nothing if there is
  no such entry.
\<close>

theorem parseImap_first_two_tokens_last_wins:
  "parseImap content k =
     (case filter (\<lambda>e. fst e = k) (imapEntries content) of
        [] \<Rightarrow> None
      | e # es \<Rightarrow> Some (snd (last (e # es))))"
  by (simp only: parseImap_entries map_of_rev_last)

lemma tokens_example:
  "tokens (js ''a1 A x'') = [js ''a1'', js ''A'', js ''x'']"
  "tokens (js ''a2 B'') = [js ''a2'', js ''B'']"
  "tokens (js ''a1 C'') = [js ''a1'', js ''C'']"
  by (simp_all add: tokens.simps string_defs)

theorem parseImap_first_two_tokens_last_wins_witness:
  "parseImap (js ''a1 A x'' @ [10] @ js ''a2 B'' @ [10] @ js ''a1 C'') (js ''a1'') = Some (js ''C'')"
proof -
  have sp: "splitOn 10 (js ''a1 A x'' @ [10] @ js ''a2 B'' @ [10] @ js ''a1 C'')
            = [js ''a1 A x'', js ''a2 B'', js ''a1 C'']"
    by (simp add: js_def)
  have "imapEntries (js ''a1 A x'' @ [10] @ js ''a2 B'' @ [10] @ js ''a1 C'')
        = [(js ''a1'', js ''A''), (js ''a2'', js ''B''), (js ''a1'', js ''C'')]"
    unfolding imapEntries_def sp by (simp add: map_filter_simps lineEntry_def tokens_example)
  then show ?thesis
    using parseImap_first_two_tokens_last_wins[of
        "js ''a1 A x'' @ [10] @ js ''a2 B'' @ [10] @ js ''a1 C''" "js ''a1''"]
    by (simp add: js_def)
qed

end
